theory Spec2Isabelle
  imports Main
begin

section \<open>The local-minimum search of \<open>estimator/util.py\<close>\<close>

text \<open>
  The class \<open>local_minimum\<close> is an iterator with mutable fields. It is embedded as a record
  that is passed through \<open>__init__\<close>, \<open>__next__\<close> and \<open>update\<close> explicitly. Calls of
  \<open>Logging.log\<close> write to the log channel only and are left out.

  A result reported by the cost function is either Python's \<open>False\<close> (the test
  \<open>res is not False\<close> of \<open>update\<close>) or some other value.
\<close>

datatype 'r result = Infeasible | Feasible 'r

datatype error = ValueError | TypeError | ZeroDivisionError | KeyError | IndexError | PicklingError

text \<open>
  The fields of the object, named as in \<open>__init__\<close> with the prefix \<open>lm\<close> in place of the
  leading underscore. \<open>_best\<close> is the tuple \<open>(None, None)\<close> until the first report and a
  pair of a candidate and its result afterwards; it is an optional pair here.
\<close>

record 'r local_minimum_state =
  lm_suppress_bounds_warning :: bool
  lm_test_step_size :: int
  lm_log_level :: int
  lm_start :: int
  lm_stop :: int
  lm_initial_bounds :: "int \<times> int"
  lm_smallerf :: "'r result \<Rightarrow> 'r result \<Rightarrow> bool"
  lm_direction :: int
  lm_last_x :: "int option"
  lm_next_x :: "int option"
  lm_best :: "(int \<times> 'r result) option"
  lm_all_x :: "int set"

text \<open>
  \<open>ceil(a / b)\<close> and \<open>floor(a / b)\<close> on integers, for \<open>b \<noteq> 0\<close>, the quotient being taken
  exactly.
\<close>

definition ceil_div :: "int \<Rightarrow> int \<Rightarrow> int" where
  "ceil_div a b = - ((- a) div b)"

definition floor_div :: "int \<Rightarrow> int \<Rightarrow> int" where
  "floor_div a b = a div b"

text \<open>The body of \<open>__init__\<close> after the bounds check.\<close>

definition init_state ::
  "int \<Rightarrow> int \<Rightarrow> ('r result \<Rightarrow> 'r result \<Rightarrow> bool) \<Rightarrow> int \<Rightarrow> bool \<Rightarrow> int \<Rightarrow> 'r local_minimum_state" where
  "init_state start stop smallerf log_level suppress_bounds_warning test_step_size =
     \<lparr> lm_suppress_bounds_warning = suppress_bounds_warning,
       lm_test_step_size = test_step_size,
       lm_log_level = log_level,
       lm_start = start,
       lm_stop = stop - 1,
       lm_initial_bounds = (start, stop - 1),
       lm_smallerf = smallerf,
       lm_direction = - 1,
       lm_last_x = None,
       lm_next_x = Some (stop - 1),
       lm_best = None,
       lm_all_x = {} \<rparr>"

text \<open>\<open>local_minimum.__init__\<close>: \<open>ValueError\<close> when \<open>stop < start\<close>.\<close>

definition local_minimum ::
  "int \<Rightarrow> int \<Rightarrow> ('r result \<Rightarrow> 'r result \<Rightarrow> bool) \<Rightarrow> int \<Rightarrow> bool \<Rightarrow> int
     \<Rightarrow> error + 'r local_minimum_state" where
  "local_minimum start stop smallerf log_level suppress_bounds_warning test_step_size =
     (if stop < start then Inl ValueError
      else Inr (init_state start stop smallerf log_level suppress_bounds_warning test_step_size))"

text \<open>
  \<open>local_minimum.__next__\<close>: the candidate produced, or \<open>None\<close> for \<open>StopIteration\<close>, with
  the state afterwards. The three tests that set \<open>abort\<close> are kept in their order.
\<close>

definition lm_next :: "'r local_minimum_state \<Rightarrow> int option \<times> 'r local_minimum_state" where
  "lm_next s =
     (let abort =
        (case lm_next_x s of
           None \<Rightarrow> True
         | Some nx \<Rightarrow>
             if nx \<in> lm_all_x s then True
             else if nx < fst (lm_initial_bounds s) \<or> snd (lm_initial_bounds s) < nx then True
             else False)
      in if \<not> abort then (lm_next_x s, s\<lparr>lm_last_x := lm_next_x s, lm_next_x := None\<rparr>)
         else (None, s))"

text \<open>The properties \<open>x\<close> and \<open>y\<close>: the two components of \<open>_best\<close>.\<close>

definition lm_x :: "'r local_minimum_state \<Rightarrow> int option" where
  "lm_x s = map_option fst (lm_best s)"

definition lm_y :: "'r local_minimum_state \<Rightarrow> 'r result option" where
  "lm_y s = map_option snd (lm_best s)"

text \<open>
  The body of \<open>update\<close> for a state whose \<open>_last_x\<close> is the integer \<open>lx\<close>. The branches
  and their order are those of the source.
\<close>

definition update_body :: "'r local_minimum_state \<Rightarrow> int \<Rightarrow> 'r result \<Rightarrow> 'r local_minimum_state" where
  "update_body s lx res =
     (let s1 = s\<lparr>lm_all_x := insert lx (lm_all_x s)\<rparr>;
          b = (case lm_best s1 of None \<Rightarrow> (lx, res) | Some b0 \<Rightarrow> b0);
          s2 = s1\<lparr>lm_best := Some b\<rparr>;
          s3 =
            (if res \<noteq> Infeasible \<and> lm_smallerf s2 res (snd b) then
               (let s4 = s2\<lparr>lm_best := Some (lx, res)\<rparr> in
                if \<bar>lm_direction s4\<bar> \<noteq> 1 then
                  s4\<lparr>lm_direction := - 1, lm_next_x := Some (lx - lm_test_step_size s4)\<rparr>
                else if lm_direction s4 = - 1 then
                  s4\<lparr>lm_direction := - 2, lm_stop := lx,
                     lm_next_x := Some (ceil_div (lm_start s4 + lx) 2)\<rparr>
                else if lm_direction s4 = 1 then
                  s4\<lparr>lm_direction := 2, lm_start := lx,
                     lm_next_x := Some (floor_div (lx + lm_stop s4) 2)\<rparr>
                else s4)
             else
               (if lm_direction s2 = - 1 then
                  s2\<lparr>lm_direction := 1, lm_next_x := Some (lx + 2 * lm_test_step_size s2)\<rparr>
                else if lm_direction s2 = 1 then
                  s2\<lparr>lm_next_x := None\<rparr>
                else if lm_direction s2 = - 2 then
                  s2\<lparr>lm_start := lx, lm_next_x := Some (ceil_div (lx + lm_stop s2) 2)\<rparr>
                else if lm_direction s2 = 2 then
                  s2\<lparr>lm_stop := lx, lm_next_x := Some (floor_div (lm_start s2 + lx) 2)\<rparr>
                else s2))
      in if lm_next_x s3 = Some lx then s3\<lparr>lm_next_x := None\<rparr> else s3)"

text \<open>
  \<open>local_minimum.update\<close>. Before the first candidate has been produced \<open>_last_x\<close> is
  \<open>None\<close>, the direction is \<open>-1\<close>, and both branches for that direction do integer
  arithmetic on \<open>_last_x\<close>: Python raises \<open>TypeError\<close>.
\<close>

definition update :: "'r local_minimum_state \<Rightarrow> 'r result \<Rightarrow> error + 'r local_minimum_state" where
  "update s res =
     (case lm_last_x s of
        None \<Rightarrow> Inl TypeError
      | Some lx \<Rightarrow> Inr (update_body s lx res))"

text \<open>
  The loop \<open>for x in it: it.update(f(x))\<close> of \<open>binary_search\<close>. It returns the iterator
  state at \<open>StopIteration\<close>, together with the candidates handed to \<open>f\<close>, in order.
\<close>

function search_loop ::
  "(int \<Rightarrow> 'r result) \<Rightarrow> 'r local_minimum_state \<Rightarrow> error + (int list \<times> 'r local_minimum_state)" where
  "search_loop f s =
     (case lm_next s of
        (None, s') \<Rightarrow> Inr ([], s')
      | (Some x, s') \<Rightarrow>
          (case update s' (f x) of
             Inl e \<Rightarrow> Inl e
           | Inr s'' \<Rightarrow>
               (case search_loop f s'' of
                  Inl e \<Rightarrow> Inl e
                | Inr (xs, t) \<Rightarrow> Inr (x # xs, t))))"
  by pat_completeness auto

text \<open>
  The default comparator \<open>lambda x, best: x <= best\<close> on integer-valued results. Python
  compares an integer with \<open>False\<close> as with \<open>0\<close>.
\<close>

definition default_smallerf :: "int result \<Rightarrow> int result \<Rightarrow> bool" where
  "default_smallerf x best =
     ((case x of Infeasible \<Rightarrow> 0 | Feasible v \<Rightarrow> v)
        \<le> (case best of Infeasible \<Rightarrow> 0 | Feasible v \<Rightarrow> v))"

text \<open>
  \<open>binary_search\<close>, with the candidates it evaluated. The keyword arguments are fixed for
  the whole call, so \<open>f\<close> is the cost function of the searched parameter alone. The value
  returned is \<open>it.y\<close>, which is \<open>None\<close> when no candidate was produced.
\<close>

definition binary_search_evals ::
  "(int \<Rightarrow> 'r result) \<Rightarrow> int \<Rightarrow> int \<Rightarrow> ('r result \<Rightarrow> 'r result \<Rightarrow> bool)
     \<Rightarrow> error + ('r result option \<times> int list)" where
  "binary_search_evals f start stop smallerf =
     (case local_minimum start (stop + 1) smallerf 5 False 1 of
        Inl e \<Rightarrow> Inl e
      | Inr it \<Rightarrow>
          (case search_loop f it of
             Inl e \<Rightarrow> Inl e
           | Inr (xs, it') \<Rightarrow> Inr (lm_y it', xs)))"

definition binary_search ::
  "(int \<Rightarrow> 'r result) \<Rightarrow> int \<Rightarrow> int \<Rightarrow> ('r result \<Rightarrow> 'r result \<Rightarrow> bool)
     \<Rightarrow> error + 'r result option" where
  "binary_search f start stop smallerf =
     map_sum id fst (binary_search_evals f start stop smallerf)"

text \<open>
  Any use of the iterator: a sequence of calls of \<open>__next__\<close> and \<open>update\<close>, in whatever
  order the caller makes them. \<open>run\<close> performs the calls and collects the candidates
  produced; \<open>StopIteration\<close> leaves the object as it is.
\<close>

datatype 'r call = Next | Update "'r result"

fun run ::
  "'r local_minimum_state \<Rightarrow> 'r call list \<Rightarrow> error + (int list \<times> 'r local_minimum_state)" where
  "run s [] = Inr ([], s)"
| "run s (Next # cs) =
     (case lm_next s of
        (None, s') \<Rightarrow> run s' cs
      | (Some x, s') \<Rightarrow>
          (case run s' cs of
             Inl e \<Rightarrow> Inl e
           | Inr (xs, t) \<Rightarrow> Inr (x # xs, t)))"
| "run s (Update res # cs) =
     (case update s res of
        Inl e \<Rightarrow> Inl e
      | Inr s' \<Rightarrow> run s' cs)"

section \<open>\<open>binary_search_robust\<close>\<close>

text \<open>
  \<open>round((stop - start) / 2)\<close> for Python integers: the quotient is a float and the
  built-in \<open>round\<close> takes a tie to the even neighbour. The argument is \<open>stop - start\<close>.
\<close>

definition round_half :: "int \<Rightarrow> int" where
  "round_half n =
     (let k = n div 2
      in if even n then k else if even k then k else k + 1)"

text \<open>\<open>range(lower, upper)\<close>.\<close>

definition py_range :: "int \<Rightarrow> int \<Rightarrow> int list" where
  "py_range lower upper = [lower .. upper - 1]"

text \<open>
  \<open>min(cst)\<close> keeps the first element and replaces it by a later one that is smaller under
  the results' own \<open><\<close>, which is the parameter \<open>lt\<close>; on an empty list it raises
  \<open>ValueError\<close>.
\<close>

fun py_min_from :: "('a \<Rightarrow> 'a \<Rightarrow> bool) \<Rightarrow> 'a \<Rightarrow> 'a list \<Rightarrow> 'a" where
  "py_min_from lt m [] = m"
| "py_min_from lt m (y # ys) = py_min_from lt (if lt y m then y else m) ys"

definition py_min :: "('a \<Rightarrow> 'a \<Rightarrow> bool) \<Rightarrow> 'a list \<Rightarrow> error + 'a" where
  "py_min lt cst = (case cst of [] \<Rightarrow> Inl ValueError | y # ys \<Rightarrow> Inr (py_min_from lt y ys))"

text \<open>
  \<open>binary_search_robust\<close>, with the points at which it called \<open>f\<close>, in order. Division by
  \<open>step = 0\<close> raises \<open>ZeroDivisionError\<close>; \<open>step * it.x\<close> raises \<open>TypeError\<close> when the
  coarse search produced no candidate and \<open>it.x\<close> is \<open>None\<close>.
\<close>

definition binary_search_robust_evals ::
  "(int \<Rightarrow> 'r result) \<Rightarrow> int \<Rightarrow> int \<Rightarrow> int \<Rightarrow> ('r result \<Rightarrow> 'r result \<Rightarrow> bool)
     \<Rightarrow> ('r result \<Rightarrow> 'r result \<Rightarrow> bool) \<Rightarrow> error + ('r result \<times> int list)" where
  "binary_search_robust_evals f start stop step smallerf lt =
     (if step = 0 then Inl ZeroDivisionError
      else
        (case local_minimum (ceil_div start step) (floor_div stop step) smallerf 5 False 1 of
           Inl e \<Rightarrow> Inl e
         | Inr it \<Rightarrow>
             (case
                (if stop - start > step then
                   (case search_loop (\<lambda>x. f (step * x)) it of
                      Inl e \<Rightarrow> Inl e
                    | Inr (xs, it') \<Rightarrow>
                        (case lm_best it' of
                           None \<Rightarrow> Inl TypeError
                         | Some (bx, by) \<Rightarrow> Inr (step * bx, by, map (\<lambda>x. step * x) xs)))
                 else
                   (let p = round_half (stop - start)
                    in Inr (p, f p, [p])))
              of
                Inl e \<Rightarrow> Inl e
              | Inr (p, y, evals) \<Rightarrow>
                  (let lower = max start (p - step);
                       upper = min stop (p + step)
                   in if lower \<ge> upper then Inr (y, evals)
                      else
                        (case py_min lt (map f (py_range lower upper)) of
                           Inl e \<Rightarrow> Inl e
                         | Inr m \<Rightarrow> Inr (m, evals @ py_range lower upper))))))"

definition binary_search_robust ::
  "(int \<Rightarrow> 'r result) \<Rightarrow> int \<Rightarrow> int \<Rightarrow> int \<Rightarrow> ('r result \<Rightarrow> 'r result \<Rightarrow> bool)
     \<Rightarrow> ('r result \<Rightarrow> 'r result \<Rightarrow> bool) \<Rightarrow> error + 'r result" where
  "binary_search_robust f start stop step smallerf lt =
     map_sum id fst (binary_search_robust_evals f start stop step smallerf lt)"

text \<open>The natural \<open><\<close> on integer-valued results, \<open>False\<close> counting as \<open>0\<close>.\<close>

definition default_lt :: "int result \<Rightarrow> int result \<Rightarrow> bool" where
  "default_lt x y =
     ((case x of Infeasible \<Rightarrow> 0 | Feasible v \<Rightarrow> v)
        < (case y of Infeasible \<Rightarrow> 0 | Feasible v \<Rightarrow> v))"

section \<open>\<open>batch_estimate\<close>\<close>























section \<open>Strictly unimodal cost functions\<close>

text \<open>
  An integer-valued cost function is strictly unimodal on \<open>[start, stop)\<close> with minimiser
  \<open>k\<close> when it falls strictly from \<open>start\<close> to \<open>k\<close> and rises strictly from \<open>k\<close> to
  \<open>stop - 1\<close>.
\<close>

definition strictly_unimodal :: "(int \<Rightarrow> int) \<Rightarrow> int \<Rightarrow> int \<Rightarrow> int \<Rightarrow> bool" where
  "strictly_unimodal f start stop k \<longleftrightarrow>
     start \<le> k \<and> k < stop \<and>
     (\<forall>x\<in>{start ..< k}. f (x + 1) < f x) \<and>
     (\<forall>x\<in>{k ..< stop - 1}. f x < f (x + 1))"

text \<open>
  The state of a search on such a function, after a report. \<open>V\<close> is the visited set, \<open>d\<close>
  the direction, \<open>st\<close> and \<open>en\<close> the current bounds, \<open>bx\<close> the best candidate and \<open>nx\<close>
  the next one. The best candidate has the least result among the visited ones, the
  minimiser lies within the current bounds, and no visited candidate lies strictly between
  them, except the best one and its lower neighbour while the search probes around it.
  Each direction fixes where the next candidate is; where there is none, the best
  candidate is next to the minimiser.
\<close>

definition phase_ok ::
  "(int \<Rightarrow> int) \<Rightarrow> int \<Rightarrow> int \<Rightarrow> int \<Rightarrow> int set \<Rightarrow> int \<Rightarrow> int \<Rightarrow> int \<Rightarrow> int \<Rightarrow> int option \<Rightarrow> bool" where
  "phase_ok f a b k V d st en bx nx \<longleftrightarrow>
     bx \<in> V \<and> (\<forall>y\<in>V. f bx \<le> f y \<and> a \<le> y \<and> y \<le> b) \<and>
     a \<le> st \<and> st \<le> bx \<and> bx \<le> en \<and> en \<le> b \<and> en \<in> V \<and> (st \<in> V \<or> st = a) \<and>
     st \<le> k \<and> k \<le> en \<and>
     (d = - 2 \<and> bx = en \<and> (\<forall>y\<in>V. y \<le> st \<or> en \<le> y) \<and>
        (nx = Some (ceil_div (st + en) 2) \<or> nx = None \<and> \<bar>bx - k\<bar> \<le> 1)
      \<or> d = 2 \<and> bx = st \<and> (\<forall>y\<in>V. y \<le> st \<or> en \<le> y) \<and>
        (nx = Some (floor_div (st + en) 2) \<or> nx = None \<and> \<bar>bx - k\<bar> \<le> 1)
      \<or> d = - 1 \<and> st < bx \<and> bx < en \<and> (\<forall>y\<in>V. y \<le> st \<or> en \<le> y \<or> y = bx) \<and>
        st + en \<le> 2 * bx + 1 \<and> nx = Some (bx - 1)
      \<or> d = 1 \<and> st < bx \<and> bx < en \<and> bx \<le> k \<and>
        (nx = Some (bx + 1) \<and> (\<forall>y\<in>V. y \<le> st \<or> en \<le> y \<or> y = bx \<or> y = bx - 1)
         \<or> nx = None \<and> \<bar>bx - k\<bar> \<le> 1))"

definition search_inv :: "(int \<Rightarrow> int) \<Rightarrow> int \<Rightarrow> int \<Rightarrow> int \<Rightarrow> int local_minimum_state \<Rightarrow> bool" where
  "search_inv f a b k s \<longleftrightarrow>
     lm_initial_bounds s = (a, b) \<and> lm_test_step_size s = 1 \<and> lm_smallerf s = default_smallerf \<and>
     (\<exists>bx. lm_best s = Some (bx, Feasible (f bx)) \<and>
        phase_ok f a b k (lm_all_x s) (lm_direction s) (lm_start s) (lm_stop s) bx (lm_next_x s))"

section \<open>States used in the examples\<close>

text \<open>
  A fresh iterator over \<open>[0, 5)\<close> after its first \<open>__next__\<close> (candidate \<open>4\<close>), and the same
  iterator after the report \<open>7\<close> for \<open>4\<close> and a second \<open>__next__\<close> (candidate \<open>2\<close>).
\<close>

abbreviation first_probe :: "int local_minimum_state" where
  "first_probe \<equiv> snd (lm_next (init_state 0 5 default_smallerf 5 False 1))"

abbreviation second_probe :: "int local_minimum_state" where
  "second_probe \<equiv> snd (lm_next (update_body first_probe 4 (Feasible 7)))"

text \<open>
  An iterator over \<open>[10, 31)\<close> after the reports \<open>1\<close> for \<open>30\<close> and \<open>1\<close> for \<open>20\<close>: the
  second report was an improvement after a long jump, and the candidate \<open>19\<close>, one unit
  step below, has been produced.
\<close>

abbreviation probing_down :: "int local_minimum_state" where
  "probing_down \<equiv>
     snd (lm_next (update_body (snd (lm_next (update_body
       (snd (lm_next (init_state 10 31 default_smallerf 5 False 1))) 30 (Feasible 1)))) 20 (Feasible 1)))"

text \<open>
  An iterator over \<open>[0, 9)\<close> after the reports \<open>3\<close> for \<open>8\<close>, \<open>3\<close> for \<open>4\<close> and \<open>4\<close> for \<open>3\<close>:
  the unit step down from \<open>4\<close> did not improve, and the candidate \<open>5\<close>, one unit step above
  \<open>4\<close>, has been produced.
\<close>

abbreviation probing_up :: "int local_minimum_state" where
  "probing_up \<equiv>
     snd (lm_next (update_body (snd (lm_next (update_body (snd (lm_next (update_body
       (snd (lm_next (init_state 0 9 default_smallerf 5 False 1))) 8 (Feasible 3)))) 4 (Feasible 3)))) 3 (Feasible 4)))"

section \<open>Measures and invariants\<close>

text \<open>The integers of the original interval that have not been reported yet.\<close>

definition unvisited :: "'r local_minimum_state \<Rightarrow> int set" where
  "unvisited s = {fst (lm_initial_bounds s) .. snd (lm_initial_bounds s)} - lm_all_x s"

text \<open>
  What holds of the candidates \<open>pre\<close> produced so far, for an iterator with the original
  bounds \<open>bnds\<close>: they are pairwise different, lie within the bounds, and have all been
  reported, except for the last one while its report is outstanding.
\<close>

definition produced_inv :: "int \<times> int \<Rightarrow> int list \<Rightarrow> 'r local_minimum_state \<Rightarrow> bool" where
  "produced_inv bnds pre s \<longleftrightarrow>
     lm_initial_bounds s = bnds \<and> distinct pre \<and> set pre \<subseteq> {fst bnds .. snd bnds} \<and>
     set pre \<subseteq> lm_all_x s \<union> (if lm_next_x s = None then set_option (lm_last_x s) else {})"

section \<open>Basic facts about one step\<close>

lemmas lm_defs = init_state_def lm_next_def update_def update_body_def default_smallerf_def
  ceil_div_def floor_div_def Let_def

lemma lm_next_Some:
  "lm_next s = (Some x, s') \<Longrightarrow>
     lm_next_x s = Some x \<and> x \<notin> lm_all_x s
     \<and> fst (lm_initial_bounds s) \<le> x \<and> x \<le> snd (lm_initial_bounds s)
     \<and> s' = s\<lparr>lm_last_x := Some x, lm_next_x := None\<rparr>"
  by (auto simp: lm_next_def Let_def split: option.splits if_splits)

lemma lm_next_None: "lm_next s = (None, s') \<Longrightarrow> s' = s"
  by (auto simp: lm_next_def Let_def split: option.splits if_splits)

lemma update_body_all_x: "lm_all_x (update_body s lx r) = insert lx (lm_all_x s)"
  by (simp add: update_body_def Let_def split: option.splits)

lemma update_body_bounds: "lm_initial_bounds (update_body s lx r) = lm_initial_bounds s"
  by (simp add: update_body_def Let_def split: option.splits)

lemma update_body_last_x: "lm_last_x (update_body s lx r) = lm_last_x s"
  by (simp add: update_body_def Let_def split: option.splits)

lemma update_body_smallerf: "lm_smallerf (update_body s lx r) = lm_smallerf s"
  by (simp add: update_body_def Let_def split: option.splits)

lemma update_Inr:
  "update s r = Inr s' \<Longrightarrow> \<exists>lx. lm_last_x s = Some lx \<and> s' = update_body s lx r"
  by (auto simp: update_def split: option.splits)

lemma step_decreases:
  assumes "lm_next s = (Some x, s')" and "update s' r = Inr s''"
  shows "card (unvisited s'') < card (unvisited s)"
proof -
  from lm_next_Some[OF assms(1)]
  have x: "x \<notin> lm_all_x s" "x \<in> {fst (lm_initial_bounds s) .. snd (lm_initial_bounds s)}"
    and s': "s' = s\<lparr>lm_last_x := Some x, lm_next_x := None\<rparr>" by auto
  from update_Inr[OF assms(2)] s' have s'': "s'' = update_body s' x r" by auto
  have "unvisited s'' = unvisited s - {x}"
    by (auto simp: unvisited_def s'' s' update_body_all_x update_body_bounds)
  moreover have "x \<in> unvisited s" using x by (simp add: unvisited_def)
  moreover have "finite (unvisited s)" by (simp add: unvisited_def)
  ultimately show ?thesis by (metis card_Diff1_less)
qed

text \<open>
  The loop ends: each round reports a candidate of the original interval that had not
  been reported before.
\<close>

termination search_loop
  by (relation "measure (\<lambda>(f, s). card (unvisited s))") (auto intro: step_decreases[OF sym])

section \<open>The loop always returns\<close>

lemma search_loop_Inr: "\<exists>xs t. search_loop f s = Inr (xs, t)"
proof (induction f s rule: search_loop.induct)
  case (1 f s)
  show ?case
  proof (cases "lm_next s")
    case (Pair ox s')
    show ?thesis
    proof (cases ox)
      case None
      with Pair show ?thesis by (subst search_loop.simps) simp
    next
      case (Some x)
      from lm_next_Some[OF Pair[unfolded Some]] have "lm_last_x s' = Some x" by simp
      then have u: "update s' (f x) = Inr (update_body s' x (f x))" by (simp add: update_def)
      from "1.IH"[OF Pair[symmetric] Some u] obtain xs t where "search_loop f (update_body s' x (f x)) = Inr (xs, t)" by blast
      with Pair Some u show ?thesis by (subst search_loop.simps) simp
    qed
  qed
qed

section \<open>Candidates produced by any sequence of calls\<close>

lemma produced_inv_next:
  assumes "produced_inv bnds pre s" "lm_next s = (Some x, s')"
  shows "produced_inv bnds (pre @ [x]) s'"
  using assms(1) lm_next_Some[OF assms(2)]
  by (auto simp: produced_inv_def)

lemma produced_inv_update:
  assumes "produced_inv bnds pre s" "update s r = Inr s'"
  shows "produced_inv bnds pre s'"
proof -
  from update_Inr[OF assms(2)] obtain lx where lx: "lm_last_x s = Some lx" "s' = update_body s lx r" by blast
  with assms(1) show ?thesis
    by (auto simp: produced_inv_def update_body_all_x update_body_bounds split: if_splits)
qed

lemma run_produced_inv:
  "produced_inv bnds pre s \<Longrightarrow> run s cs = Inr (xs, t) \<Longrightarrow> produced_inv bnds (pre @ xs) t"
proof (induction cs arbitrary: pre s xs)
  case Nil
  then show ?case by simp
next
  case (Cons c cs)
  show ?case
  proof (cases c)
    case Next
    obtain ox s' where n: "lm_next s = (ox, s')" by (cases "lm_next s")
    show ?thesis
    proof (cases ox)
      case None
      with n lm_next_None[of s s'] Cons Next show ?thesis by auto
    next
      case (Some x)
      with n Cons.prems(2) Next obtain ys where ys: "run s' cs = Inr (ys, t)" "xs = x # ys"
        by (auto split: sum.splits)
      from produced_inv_next[OF Cons.prems(1) n[unfolded Some]] Cons.IH ys
      show ?thesis by fastforce
    qed
  next
    case (Update r)
    with Cons.prems(2) obtain s' where s': "update s r = Inr s'" "run s' cs = Inr (xs, t)"
      by (auto split: sum.splits)
    from Cons.IH[OF produced_inv_update[OF Cons.prems(1) s'(1)] s'(2)] show ?thesis .
  qed
qed

lemma produced_inv_init:
  "produced_inv (start, stop - 1) [] (init_state start stop sf ll sw tss)"
  by (simp add: produced_inv_def init_state_def)

lemma distinct_in_interval_length:
  assumes "distinct xs" "set xs \<subseteq> {a .. b - 1}" "a \<le> (b::int)"
  shows "length xs \<le> nat (b - a)"
proof -
  have "length xs = card (set xs)" using assms(1) by (simp add: distinct_card)
  also have "\<dots> \<le> card {a .. b - 1}" using assms(2) by (intro card_mono) auto
  also have "\<dots> = nat (b - a)" by simp
  finally show ?thesis .
qed

lemma search_loop_as_run:
  "search_loop f s = Inr (xs, t) \<Longrightarrow> \<exists>cs. run s cs = Inr (xs, t)"
proof (induction f s arbitrary: xs t rule: search_loop.induct)
  case (1 f s)
  obtain ox s' where n: "lm_next s = (ox, s')" by (cases "lm_next s")
  show ?case
  proof (cases ox)
    case None
    with n "1.prems" have "xs = []" "t = s'" by (subst (asm) search_loop.simps, simp)+
    with n None have "run s [Next] = Inr (xs, t)" by simp
    then show ?thesis ..
  next
    case (Some x)
    with n "1.prems" obtain s'' ys where
      u: "update s' (f x) = Inr s''" and r: "search_loop f s'' = Inr (ys, t)" and xs: "xs = x # ys"
      by (subst (asm) search_loop.simps) (auto split: sum.splits)
    from "1.IH"[OF n[symmetric] Some u r] obtain cs where "run s'' cs = Inr (ys, t)" ..
    with n Some u xs have "run s (Next # Update (f x) # cs) = Inr (xs, t)" by simp
    then show ?thesis ..
  qed
qed

lemma local_minimum_Inr:
  "local_minimum start stop sf ll sw tss = Inr s0 \<Longrightarrow>
     start \<le> stop \<and> s0 = init_state start stop sf ll sw tss"
  by (auto simp: local_minimum_def split: if_splits)

lemma search_loop_first:
  assumes "lm_next_x s = Some x" "x \<notin> lm_all_x s"
    "fst (lm_initial_bounds s) \<le> x" "x \<le> snd (lm_initial_bounds s)"
  shows "\<exists>xs t. search_loop f s = Inr (x # xs, t)"
proof -
  let ?s' = "s\<lparr>lm_last_x := Some x, lm_next_x := None\<rparr>"
  from assms have n: "lm_next s = (Some x, ?s')" by (auto simp: lm_next_def)
  have u: "update ?s' (f x) = Inr (update_body ?s' x (f x))" by (simp add: update_def)
  obtain xs t where "search_loop f (update_body ?s' x (f x)) = Inr (xs, t)"
    using search_loop_Inr by blast
  with n u have "search_loop f s = Inr (x # xs, t)" by (subst search_loop.simps) simp
  then show ?thesis by blast
qed

lemma search_loop_within_bounds:
  assumes "search_loop f s = Inr (xs, t)"
  shows "set xs \<subseteq> {fst (lm_initial_bounds s) .. snd (lm_initial_bounds s)}"
proof -
  from search_loop_as_run[OF assms] obtain cs where r: "run s cs = Inr (xs, t)" ..
  have "produced_inv (lm_initial_bounds s) [] s" by (simp add: produced_inv_def)
  from run_produced_inv[OF this r] show ?thesis by (simp add: produced_inv_def)
qed

section \<open>Properties of the search\<close>

text \<open>
  C6: in a single run of \<open>local_minimum\<close>, whatever the bounds, the comparator, the
  reported results and the order of the calls of \<open>__next__\<close> and \<open>update\<close>, no integer is
  produced twice by \<open>__next__\<close>.
\<close>

theorem candidates_never_repeat:
  assumes "local_minimum start stop smallerf ll sw tss = Inr s0"
    and "run s0 cs = Inr (xs, t)"
  shows "distinct xs"
proof -
  from local_minimum_Inr[OF assms(1)] have "s0 = init_state start stop smallerf ll sw tss" by simp
  with produced_inv_init have "produced_inv (start, stop - 1) [] s0" by simp
  from run_produced_inv[OF this assms(2)] show ?thesis by (simp add: produced_inv_def)
qed

theorem candidates_never_repeat_witness:
  "local_minimum 10 31 default_smallerf 5 False 1 = Inr (init_state 10 31 default_smallerf 5 False 1)
   \<and> map_sum id fst (run (init_state 10 31 default_smallerf 5 False 1)
        [Next, Update (Feasible 1), Next, Next, Update (Feasible 1), Update (Feasible 2), Next])
       = Inr [30, 20, 22]
   \<and> distinct [30, 20, 22 :: int]"
proof -
  let ?s0 = "init_state 10 31 default_smallerf 5 False 1"
  let ?cs = "[Next, Update (Feasible 1), Next, Next, Update (Feasible 1), Update (Feasible 2), Next]"
  have h1: "local_minimum 10 31 default_smallerf 5 False 1 = Inr ?s0"
    by (simp add: local_minimum_def)
  obtain t where h2: "run ?s0 ?cs = Inr ([30, 20, 22], t)"
    by (simp add: init_state_def lm_next_def update_def update_body_def default_smallerf_def
          ceil_div_def floor_div_def Let_def)
  from candidates_never_repeat[OF h1 h2] h1 h2 show ?thesis by simp
qed

text \<open>
  C7: after a valid construction (\<open>start \<le> stop\<close>) the loop that alternates \<open>__next__\<close> and
  \<open>update\<close> returns, for every cost function and comparator, and it has produced at most
  \<open>stop - start\<close> candidates, the number of integers of the original interval. The same
  bound holds for every sequence of calls and reported results.
\<close>

theorem search_ends_within_interval:
  assumes "local_minimum start stop smallerf ll sw tss = Inr s0"
  shows "(\<exists>xs t. search_loop f s0 = Inr (xs, t) \<and> length xs \<le> nat (stop - start))
       \<and> (\<forall>cs xs t. run s0 cs = Inr (xs, t) \<longrightarrow> length xs \<le> nat (stop - start))"
proof -
  from local_minimum_Inr[OF assms] have le: "start \<le> stop"
    and s0: "s0 = init_state start stop smallerf ll sw tss" by simp_all
  from s0 produced_inv_init have inv: "produced_inv (start, stop - 1) [] s0" by simp
  have bound: "length xs \<le> nat (stop - start)" if "run s0 cs = Inr (xs, t)" for cs xs t
  proof -
    from run_produced_inv[OF inv that] have "distinct xs" "set xs \<subseteq> {start .. stop - 1}"
      by (simp_all add: produced_inv_def)
    then show ?thesis using le by (rule distinct_in_interval_length)
  qed
  obtain xs t where r: "search_loop f s0 = Inr (xs, t)" using search_loop_Inr by blast
  from search_loop_as_run[OF r] obtain cs where "run s0 cs = Inr (xs, t)" ..
  with bound have "length xs \<le> nat (stop - start)" by blast
  with r bound show ?thesis by blast
qed

theorem search_ends_within_interval_witness:
  "local_minimum 10 13 default_smallerf 5 False 1 = Inr (init_state 10 13 default_smallerf 5 False 1)
   \<and> (\<exists>xs t. search_loop (\<lambda>x. Feasible (x * x)) (init_state 10 13 default_smallerf 5 False 1) = Inr (xs, t)
         \<and> length xs \<le> nat (13 - 10))
   \<and> map_sum id fst (search_loop (\<lambda>x. Feasible (x * x)) (init_state 10 13 default_smallerf 5 False 1))
       = Inr [12, 11, 10]"
proof -
  let ?s0 = "init_state 10 13 default_smallerf 5 False 1"
  have h1: "local_minimum 10 13 default_smallerf 5 False 1 = Inr ?s0"
    by (simp add: local_minimum_def)
  have e: "map_sum id fst (search_loop (\<lambda>x. Feasible (x * x)) ?s0) = Inr [12, 11, 10]"
    by (simp add: search_loop.simps init_state_def lm_next_def update_def update_body_def
          default_smallerf_def ceil_div_def floor_div_def Let_def)
  from search_ends_within_interval[OF h1, of "\<lambda>x. Feasible (x * x)"] h1 e show ?thesis by blast
qed

text \<open>
  C8: the construction raises \<open>ValueError\<close> exactly when \<open>stop < start\<close> and raises nothing
  else; with \<open>start \<le> stop\<close> it succeeds, and the search loop run on the constructed
  iterator returns without an error for every cost function.
\<close>

theorem construction_fails_only_on_bounds:
  "(local_minimum start stop smallerf ll sw tss = Inl ValueError \<longleftrightarrow> stop < start)
   \<and> (\<forall>e. local_minimum start stop smallerf ll sw tss = Inl e \<longrightarrow> e = ValueError)
   \<and> (start \<le> stop \<longrightarrow>
        local_minimum start stop smallerf ll sw tss = Inr (init_state start stop smallerf ll sw tss)
        \<and> (\<forall>f. \<exists>xs t. search_loop f (init_state start stop smallerf ll sw tss) = Inr (xs, t)))"
  using search_loop_Inr by (auto simp: local_minimum_def)

theorem construction_fails_only_on_bounds_witness:
  "local_minimum 7 3 default_smallerf 5 False 1 = Inl ValueError
   \<and> local_minimum 3 7 default_smallerf 5 False 1 = Inr (init_state 3 7 default_smallerf 5 False 1)
   \<and> (\<exists>xs t. search_loop (\<lambda>x. Feasible (x * x)) (init_state 3 7 default_smallerf 5 False 1) = Inr (xs, t))"
  using construction_fails_only_on_bounds[of 7 3 default_smallerf 5 False 1]
    construction_fails_only_on_bounds[of 3 7 default_smallerf 5 False 1]
  by simp

text \<open>
  C10: for \<open>start \<le> stop\<close>, \<open>binary_search\<close> builds its iterator as
  \<open>local_minimum(start, stop + 1)\<close>, whose original bounds are \<open>start\<close> and \<open>stop\<close>, both
  included. What \<open>binary_search\<close> evaluates and returns is what the loop on that iterator
  evaluates and leaves as \<open>it.y\<close>: the first candidate is \<open>stop\<close>, and every candidate lies
  between \<open>start\<close> and \<open>stop\<close>.
\<close>

theorem binary_search_starts_at_stop:
  assumes "start \<le> stop"
  shows "local_minimum start (stop + 1) smallerf 5 False 1
           = Inr (init_state start (stop + 1) smallerf 5 False 1)
    \<and> lm_initial_bounds (init_state start (stop + 1) smallerf 5 False 1) = (start, stop)
    \<and> (\<exists>xs t. search_loop f (init_state start (stop + 1) smallerf 5 False 1) = Inr (stop # xs, t)
          \<and> binary_search_evals f start stop smallerf = Inr (lm_y t, stop # xs)
          \<and> binary_search f start stop smallerf = Inr (lm_y t)
          \<and> set (stop # xs) \<subseteq> {start .. stop})"
proof -
  let ?it = "init_state start (stop + 1) smallerf 5 False 1"
  have c: "local_minimum start (stop + 1) smallerf 5 False 1 = Inr ?it"
    using assms by (simp add: local_minimum_def)
  have b: "lm_initial_bounds ?it = (start, stop)" by (simp add: init_state_def)
  have "\<exists>xs t. search_loop f ?it = Inr (stop # xs, t)"
    using assms by (intro search_loop_first) (simp_all add: init_state_def)
  then obtain xs t where r: "search_loop f ?it = Inr (stop # xs, t)" by blast
  from search_loop_within_bounds[OF r] b have s: "set (stop # xs) \<subseteq> {start .. stop}" by simp
  from c r have e: "binary_search_evals f start stop smallerf = Inr (lm_y t, stop # xs)"
    by (simp add: binary_search_evals_def)
  then have "binary_search f start stop smallerf = Inr (lm_y t)"
    by (simp add: binary_search_def)
  with c b r s e show ?thesis by blast
qed

theorem binary_search_starts_at_stop_witness:
  "(10::int) \<le> 30
   \<and> (\<exists>xs t. search_loop (\<lambda>x. Feasible (x * x)) (init_state 10 (30 + 1) default_smallerf 5 False 1)
                = Inr (30 # xs, t)
          \<and> binary_search_evals (\<lambda>x. Feasible (x * x)) 10 30 default_smallerf = Inr (lm_y t, 30 # xs)
          \<and> binary_search (\<lambda>x. Feasible (x * x)) 10 30 default_smallerf = Inr (lm_y t)
          \<and> set (30 # xs) \<subseteq> {10 .. 30})
   \<and> binary_search_evals (\<lambda>x. Feasible (x * x)) 10 30 default_smallerf
       = Inr (Some (Feasible 121), [30, 20, 19, 15, 14, 12, 11])"
proof -
  have h: "(10::int) \<le> 30" by simp
  have e: "binary_search_evals (\<lambda>x. Feasible (x * x)) 10 30 default_smallerf
       = Inr (Some (Feasible 121), [30, 20, 19, 15, 14, 12, 11])"
    by (simp add: binary_search_evals_def local_minimum_def search_loop.simps lm_y_def lm_defs)
  from binary_search_starts_at_stop[OF h, of default_smallerf "\<lambda>x. Feasible (x * x)"] h e
  show ?thesis by blast
qed

text \<open>
  C2: \<open>binary_search(f, 10, 30, "x")\<close> for the step function that costs \<open>1\<close> from \<open>19\<close> on
  and \<open>2\<close> below returns the result \<open>1\<close>. The results are compared by their \<open>rop\<close>, an
  integer.
\<close>

theorem step_function_regression:
  "binary_search (\<lambda>x. if x \<ge> 19 then Feasible 1 else Feasible 2) 10 30 default_smallerf
     = Inr (Some (Feasible 1))"
  by (simp add: binary_search_def binary_search_evals_def local_minimum_def search_loop.simps lm_y_def lm_defs)

text \<open>
  C3, as stated, fails on the first report: with nothing stored yet, \<open>update\<close> stores the
  reported result as best-so-far even when it is \<open>False\<close>.
\<close>

theorem first_infeasible_is_stored:
  "lm_last_x first_probe = Some 4 \<and> lm_best first_probe = None
   \<and> map_sum id lm_best (update first_probe Infeasible) = Inr (Some (4, Infeasible))"
  by (simp add: lm_defs)

text \<open>
  C3, amended: a report of \<open>False\<close> never counts as an improvement. A best-so-far pair
  that exists is left unchanged; when nothing is stored yet, the pair of the candidate and
  \<open>False\<close> is stored. In both cases the direction and the next candidate are those of the
  branch for a report that is not better.
\<close>

theorem infeasible_is_no_improvement:
  assumes "lm_last_x s = Some lx"
  shows "update s Infeasible = Inr (update_body s lx Infeasible)
    \<and> lm_best (update_body s lx Infeasible)
        = (case lm_best s of None \<Rightarrow> Some (lx, Infeasible) | Some b \<Rightarrow> Some b)
    \<and> lm_direction (update_body s lx Infeasible)
        = (if lm_direction s = - 1 then 1 else lm_direction s)
    \<and> lm_next_x (update_body s lx Infeasible)
        = (let n = (if lm_direction s = - 1 then Some (lx + 2 * lm_test_step_size s)
                    else if lm_direction s = 1 then None
                    else if lm_direction s = - 2 then Some (ceil_div (lx + lm_stop s) 2)
                    else if lm_direction s = 2 then Some (floor_div (lm_start s + lx) 2)
                    else lm_next_x s)
           in if n = Some lx then None else n)"
  using assms by (simp add: update_def update_body_def Let_def split: option.splits)

theorem infeasible_is_no_improvement_witness:
  "lm_last_x second_probe = Some 2 \<and> lm_best second_probe = Some (4, Feasible 7)
   \<and> update second_probe Infeasible = Inr (update_body second_probe 2 Infeasible)
   \<and> lm_best (update_body second_probe 2 Infeasible) = Some (4, Feasible 7)
   \<and> lm_direction (update_body second_probe 2 Infeasible) = - 2
   \<and> lm_next_x (update_body second_probe 2 Infeasible) = Some 3"
proof -
  have h: "lm_last_x second_probe = Some 2" by (simp add: lm_defs)
  have b: "lm_best second_probe = Some (4, Feasible 7)" by (simp add: lm_defs)
  have d: "lm_direction second_probe = - 2" "lm_stop second_probe = 4" by (simp_all add: lm_defs)
  from infeasible_is_no_improvement[OF h] h b d show ?thesis by (simp add: ceil_div_def Let_def)
qed

text \<open>
  C4, as stated, fails: after an improvement at a unit step down (candidate \<open>19\<close>, one
  below the best \<open>20\<close>) the next candidate is not \<open>18\<close> but the midpoint \<open>15\<close>, and the
  direction is already \<open>-2\<close>.
\<close>

theorem probe_improvement_bisects_at_once:
  "lm_direction probing_down = - 1 \<and> lm_last_x probing_down = Some 19
   \<and> lm_test_step_size probing_down = 1 \<and> lm_best probing_down = Some (20, Feasible 1)
   \<and> default_smallerf (Feasible 1) (Feasible 1)
   \<and> map_sum id lm_direction (update probing_down (Feasible 1)) = Inr (- 2)
   \<and> map_sum id lm_next_x (update probing_down (Feasible 1)) = Inr (Some 15)
   \<and> map_sum id (fst \<circ> lm_next) (update probing_down (Feasible 1)) = Inr (Some 15)"
  by (simp add: lm_defs)

text \<open>
  C4, amended: an improvement at a unit step enters bisection at once. Probing down
  (direction \<open>-1\<close>), the direction becomes \<open>-2\<close>, the current stop becomes the reported
  candidate and the next candidate is \<open>ceil((start + stop) / 2)\<close>; probing up (direction
  \<open>1\<close>), the direction becomes \<open>2\<close>, the current start becomes the reported candidate and
  the next candidate is \<open>floor((start + stop) / 2)\<close>. There is no next candidate when the
  midpoint is the reported candidate itself.
\<close>

theorem probe_improvement_enters_bisection:
  assumes "lm_last_x s = Some lx" and "res \<noteq> Infeasible"
    and "lm_smallerf s res (case lm_best s of None \<Rightarrow> res | Some b \<Rightarrow> snd b)"
  shows "(lm_direction s = - 1 \<longrightarrow>
            update s res = Inr (s\<lparr>lm_all_x := insert lx (lm_all_x s), lm_best := Some (lx, res),
              lm_direction := - 2, lm_stop := lx,
              lm_next_x := (if ceil_div (lm_start s + lx) 2 = lx then None
                            else Some (ceil_div (lm_start s + lx) 2))\<rparr>))
       \<and> (lm_direction s = 1 \<longrightarrow>
            update s res = Inr (s\<lparr>lm_all_x := insert lx (lm_all_x s), lm_best := Some (lx, res),
              lm_direction := 2, lm_start := lx,
              lm_next_x := (if floor_div (lx + lm_stop s) 2 = lx then None
                            else Some (floor_div (lx + lm_stop s) 2))\<rparr>))"
  using assms by (auto simp: update_def update_body_def Let_def split: option.splits)

theorem probe_improvement_enters_bisection_witness:
  "lm_last_x probing_down = Some 19 \<and> lm_direction probing_down = - 1
   \<and> map_sum id lm_direction (update probing_down (Feasible 1)) = Inr (- 2)
   \<and> map_sum id lm_stop (update probing_down (Feasible 1)) = Inr 19
   \<and> map_sum id lm_next_x (update probing_down (Feasible 1)) = Inr (Some 15)
   \<and> lm_last_x probing_up = Some 5 \<and> lm_direction probing_up = 1
   \<and> map_sum id lm_direction (update probing_up (Feasible 2)) = Inr 2
   \<and> map_sum id lm_start (update probing_up (Feasible 2)) = Inr 5
   \<and> map_sum id lm_next_x (update probing_up (Feasible 2)) = Inr (Some 6)"
proof -
  have d: "lm_last_x probing_down = Some 19" "lm_direction probing_down = - 1"
    "lm_smallerf probing_down (Feasible 1) (case lm_best probing_down of None \<Rightarrow> Feasible 1 | Some b \<Rightarrow> snd b)"
    "lm_start probing_down = 10"
    by (simp_all add: lm_defs)
  have u: "lm_last_x probing_up = Some 5" "lm_direction probing_up = 1"
    "lm_smallerf probing_up (Feasible 2) (case lm_best probing_up of None \<Rightarrow> Feasible 2 | Some b \<Rightarrow> snd b)"
    "lm_stop probing_up = 8"
    by (simp_all add: lm_defs)
  have f: "Feasible (1::int) \<noteq> Infeasible" "Feasible (2::int) \<noteq> Infeasible" by simp_all
  from probe_improvement_enters_bisection[OF d(1) f(1) d(3)] d(2)
  have 1: "update probing_down (Feasible 1) = Inr (probing_down\<lparr>lm_all_x := insert 19 (lm_all_x probing_down), lm_best := Some (19, Feasible 1),
              lm_direction := - 2, lm_stop := 19,
              lm_next_x := (if ceil_div (lm_start probing_down + 19) 2 = 19 then None
                            else Some (ceil_div (lm_start probing_down + 19) 2))\<rparr>)" by blast
  from probe_improvement_enters_bisection[OF u(1) f(2) u(3)] u(2)
  have 2: "update probing_up (Feasible 2) = Inr (probing_up\<lparr>lm_all_x := insert 5 (lm_all_x probing_up), lm_best := Some (5, Feasible 2),
              lm_direction := 2, lm_start := 5,
              lm_next_x := (if floor_div (5 + lm_stop probing_up) 2 = 5 then None
                            else Some (floor_div (5 + lm_stop probing_up) 2))\<rparr>)" by blast
  show ?thesis unfolding 1 2 using d(1,2,4) u(1,2,4) by (simp add: ceil_div_def floor_div_def)
qed

section \<open>Properties of \<open>binary_search_robust\<close>\<close>

text \<open>
  C5: a range no wider than one step is to be evaluated at one point only, its midpoint,
  before the window around that point is scanned. The code evaluates
  \<open>round((stop - start) / 2)\<close> instead, which is half the span. For \<open>start = 10\<close>,
  \<open>stop = 12\<close> and \<open>step = 5\<close> the only point evaluated is \<open>1\<close>, not the midpoint \<open>11\<close>; the
  window \<open>[max(10, 1 - 5), min(12, 1 + 5))\<close> is empty, so nothing is scanned and the value
  at \<open>1\<close> is returned.
\<close>

theorem robust_degenerate_point:
  "binary_search_robust_evals f 10 12 5 smallerf lt = Inr (f 1, [1])"
  by (simp add: binary_search_robust_evals_def local_minimum_def ceil_div_def floor_div_def
        round_half_def Let_def)

section \<open>Properties of \<open>batch_estimate\<close>\<close>









section \<open>The search on a strictly unimodal cost function\<close>

lemma decreasing_below:
  assumes "\<forall>x\<in>{a ..< k}. f (x + 1) < f x" "a \<le> x" "x < y" "y \<le> (k::int)"
  shows "f y < (f x :: int)"
proof -
  have "\<forall>y. x < y \<and> y \<le> k \<longrightarrow> f y < f x"
  proof (intro allI impI)
    fix y assume "x < y \<and> y \<le> k"
    then have "x + 1 \<le> y" "y \<le> k" by simp_all
    then show "f y < f x"
    proof (induction y rule: int_ge_induct)
      case base
      from assms(1,2) base have "f (x + 1) < f x" by simp
      then show ?case .
    next
      case (step i)
      from step have "f i < f x" by simp
      moreover from assms(1,2) step have "f (i + 1) < f i" by simp
      ultimately show ?case by simp
    qed
  qed
  with assms(3,4) show ?thesis by blast
qed

lemma increasing_above:
  assumes "\<forall>x\<in>{k ..< b}. f x < f (x + 1)" "(k::int) \<le> x" "x < y" "y \<le> b"
  shows "(f x :: int) < f y"
proof -
  have "\<forall>y. x < y \<and> y \<le> b \<longrightarrow> f x < f y"
  proof (intro allI impI)
    fix y assume "x < y \<and> y \<le> b"
    then have "x + 1 \<le> y" "y \<le> b" by simp_all
    then show "f x < f y"
    proof (induction y rule: int_ge_induct)
      case base
      from assms(1,2) base show ?case by simp
    next
      case (step i)
      from step have "f x < f i" by simp
      moreover from assms(1,2) step have "f i < f (i + 1)" by simp
      ultimately show ?case by simp
    qed
  qed
  with assms(3,4) show ?thesis by blast
qed

lemma minimiser_above:
  assumes "strictly_unimodal f a (b + 1) k" "a \<le> x" "x < y" "y \<le> b" "f y \<le> f x"
  shows "x < k"
proof (rule ccontr)
  assume "\<not> x < k"
  then have "k \<le> x" by simp
  with assms have "f x < f y"
    by (intro increasing_above[of k b f x y]) (simp_all add: strictly_unimodal_def)
  with assms(5) show False by simp
qed

lemma minimiser_below:
  assumes "strictly_unimodal f a (b + 1) k" "a \<le> x" "x < y" "y \<le> b" "f x \<le> f y"
  shows "k < y"
proof (rule ccontr)
  assume "\<not> k < y"
  then have "y \<le> k" by simp
  with assms have "f y < f x"
    by (intro decreasing_below[of a k f x y]) (simp_all add: strictly_unimodal_def)
  with assms(5) show False by simp
qed

lemma phase_ok_abort:
  assumes u: "strictly_unimodal f a (b + 1) k"
    and p: "phase_ok f a b k V d st en bx nx"
    and ab: "nx = None \<or> (\<exists>n. nx = Some n \<and> (n \<in> V \<or> n < a \<or> b < n))"
  shows "\<bar>bx - k\<bar> \<le> 1"
proof -
  from p have c: "bx \<in> V" "\<forall>y\<in>V. f bx \<le> f y \<and> a \<le> y \<and> y \<le> b"
    "a \<le> st" "st \<le> bx" "bx \<le> en" "en \<le> b" "en \<in> V" "st \<in> V \<or> st = a" "st \<le> k" "k \<le> en"
    by (simp_all add: phase_ok_def)
  have up: "k < en" if "bx < en"
    using minimiser_below[OF u, of bx en] c that by auto
  have lo: "st < k" if "st < bx" "st \<in> V"
    using minimiser_above[OF u, of st bx] c that by auto
  from p consider
    (bd) "d = - 2" "bx = en" "\<forall>y\<in>V. y \<le> st \<or> en \<le> y"
        "nx = Some (ceil_div (st + en) 2) \<or> nx = None \<and> \<bar>bx - k\<bar> \<le> 1"
  | (bu) "d = 2" "bx = st" "\<forall>y\<in>V. y \<le> st \<or> en \<le> y"
        "nx = Some (floor_div (st + en) 2) \<or> nx = None \<and> \<bar>bx - k\<bar> \<le> 1"
  | (pd) "d = - 1" "st < bx" "bx < en" "\<forall>y\<in>V. y \<le> st \<or> en \<le> y \<or> y = bx"
        "st + en \<le> 2 * bx + 1" "nx = Some (bx - 1)"
  | (pu) "d = 1" "st < bx" "bx < en" "bx \<le> k"
        "nx = Some (bx + 1) \<and> (\<forall>y\<in>V. y \<le> st \<or> en \<le> y \<or> y = bx \<or> y = bx - 1)
         \<or> nx = None \<and> \<bar>bx - k\<bar> \<le> 1"
    unfolding phase_ok_def by blast
  then show ?thesis
  proof cases
    case bd
    show ?thesis
    proof (cases nx)
      case None with bd show ?thesis by simp
    next
      case (Some n)
      with bd have n: "n = ceil_div (st + en) 2" by simp
      then have nb: "st \<le> n" "n \<le> en" using c by (simp_all add: ceil_div_def)
      with ab Some c have "n \<in> V" by auto
      with bd have "n \<le> st \<or> en \<le> n" by blast
      with n have "en - 1 \<le> st" by (auto simp: ceil_div_def)
      with c bd show ?thesis by simp
    qed
  next
    case bu
    show ?thesis
    proof (cases nx)
      case None with bu show ?thesis by simp
    next
      case (Some n)
      with bu have n: "n = floor_div (st + en) 2" by simp
      then have nb: "st \<le> n" "n \<le> en" using c by (simp_all add: floor_div_def)
      with ab Some c have "n \<in> V" by auto
      with bu have "n \<le> st \<or> en \<le> n" by blast
      with n have "en \<le> st + 1" by (auto simp: floor_div_def)
      with c bu up show ?thesis by (cases "bx < en") auto
    qed
  next
    case pd
    with ab c have "bx - 1 \<in> V" by auto
    with pd have s: "st = bx - 1" by auto
    with \<open>bx - 1 \<in> V\<close> lo pd have "bx \<le> k" by simp
    moreover from up pd s have "k \<le> bx + 1" by simp
    ultimately show ?thesis by simp
  next
    case pu
    show ?thesis
    proof (cases nx)
      case None with pu show ?thesis by simp
    next
      case (Some n)
      with pu have n: "n = bx + 1" and v: "\<forall>y\<in>V. y \<le> st \<or> en \<le> y \<or> y = bx \<or> y = bx - 1" by simp_all
      with ab Some c pu have "bx + 1 \<in> V" by auto
      with v pu have "en = bx + 1" by auto
      with up pu show ?thesis by simp
    qed
  qed
qed

lemma search_inv_step:
  assumes u: "strictly_unimodal f a (b + 1) k"
    and inv: "search_inv f a b k s"
    and n: "lm_next s = (Some x, s')"
  shows "search_inv f a b k (update_body s' x (Feasible (f x)))"
proof -
  from inv obtain bx where
    g: "lm_initial_bounds s = (a, b)" "lm_test_step_size s = 1" "lm_smallerf s = default_smallerf"
       "lm_best s = Some (bx, Feasible (f bx))"
    and p: "phase_ok f a b k (lm_all_x s) (lm_direction s) (lm_start s) (lm_stop s) bx (lm_next_x s)"
    unfolding search_inv_def by blast
  from lm_next_Some[OF n] g have
    nx: "lm_next_x s = Some x" and xv: "x \<notin> lm_all_x s" and xb: "a \<le> x" "x \<le> b"
    and s': "s' = s\<lparr>lm_last_x := Some x, lm_next_x := None\<rparr>" by simp_all
  define V d st en where "V = lm_all_x s" and "d = lm_direction s" and "st = lm_start s" and "en = lm_stop s"
  note vars = V_def d_def st_def en_def
  from p have c: "bx \<in> V" "\<forall>y\<in>V. f bx \<le> f y \<and> a \<le> y \<and> y \<le> b"
    "a \<le> st" "st \<le> bx" "bx \<le> en" "en \<le> b" "en \<in> V" "st \<in> V \<or> st = a" "st \<le> k" "k \<le> en"
    by (simp_all add: phase_ok_def vars)
  from xv c have xne: "x \<noteq> bx" "x \<noteq> en" unfolding vars by auto
  have ab: "a \<le> bx" "bx \<le> b" using c by auto
  \<comment> \<open>what the comparison tells about the minimiser\<close>
  have imp_lt: "k < bx" if "f x \<le> f bx" "x < bx"
    using minimiser_below[OF u, of x bx] xb ab that by simp
  have imp_gt: "bx < k" if "f x \<le> f bx" "bx < x"
    using minimiser_above[OF u, of bx x] xb ab that by simp
  have non_lt: "x < k" if "\<not> f x \<le> f bx" "x < bx"
    using minimiser_above[OF u, of x bx] xb ab that by simp
  have non_gt: "k < x" if "\<not> f x \<le> f bx" "bx < x"
    using minimiser_below[OF u, of bx x] xb ab that by simp
  let ?t = "update_body s' x (Feasible (f x))"
  have fixed: "lm_initial_bounds ?t = (a, b)" "lm_test_step_size ?t = 1" "lm_smallerf ?t = default_smallerf"
    "lm_all_x ?t = insert x V"
    using g by (simp_all add: s' update_body_def Let_def vars)
  from p nx consider
    (bd) "d = - 2" "bx = en" "\<forall>y\<in>V. y \<le> st \<or> en \<le> y" "x = ceil_div (st + en) 2"
  | (bu) "d = 2" "bx = st" "\<forall>y\<in>V. y \<le> st \<or> en \<le> y" "x = floor_div (st + en) 2"
  | (pd) "d = - 1" "st < bx" "bx < en" "\<forall>y\<in>V. y \<le> st \<or> en \<le> y \<or> y = bx"
        "st + en \<le> 2 * bx + 1" "x = bx - 1"
  | (pu) "d = 1" "st < bx" "bx < en" "bx \<le> k" "x = bx + 1"
        "\<forall>y\<in>V. y \<le> st \<or> en \<le> y \<or> y = bx \<or> y = bx - 1"
    unfolding phase_ok_def vars by auto
  then show ?thesis
  proof cases
    case bd
    from bd(4) c have xr: "st \<le> x" "x \<le> en" "st + en \<le> 2 * x" "2 * x \<le> st + en + 1"
      by (simp_all add: ceil_div_def)
    from xr xne xv c have xs: "st < x" "x < en" unfolding vars by auto
    show ?thesis
    proof (cases "f x \<le> f bx")
      case True
      have t: "lm_best ?t = Some (x, Feasible (f x))" "lm_direction ?t = - 1" "lm_start ?t = st"
        "lm_stop ?t = en" "lm_next_x ?t = Some (x - 1)"
        using g True bd(1) by (simp_all add: s' update_body_def default_smallerf_def Let_def vars[symmetric])
      have "phase_ok f a b k (insert x V) (- 1) st en x (Some (x - 1))"
        unfolding phase_ok_def using c bd xs xr xb True by auto
      with fixed t show ?thesis unfolding search_inv_def by auto
    next
      case False
      have t: "lm_best ?t = Some (bx, Feasible (f bx))" "lm_direction ?t = - 2" "lm_start ?t = x"
        "lm_stop ?t = en" "lm_next_x ?t = Some (ceil_div (x + en) 2)"
        using g False bd(1) xs
        by (auto simp: s' update_body_def default_smallerf_def Let_def vars[symmetric] ceil_div_def)
      from non_lt[OF False] xs bd have "x < k" by simp
      then have "phase_ok f a b k (insert x V) (- 2) x en bx (Some (ceil_div (x + en) 2))"
        unfolding phase_ok_def using c bd xs xr xb False by auto
      with fixed t show ?thesis unfolding search_inv_def by auto
    qed
  next
    case bu
    from bu(4) c have xr: "st \<le> x" "x \<le> en" "st + en \<le> 2 * x + 1" "2 * x \<le> st + en"
      by (simp_all add: floor_div_def)
    from xr xne bu have xs: "st < x" "x < en" by auto
    show ?thesis
    proof (cases "f x \<le> f bx")
      case True
      have t: "lm_best ?t = Some (x, Feasible (f x))" "lm_direction ?t = - 1" "lm_start ?t = st"
        "lm_stop ?t = en" "lm_next_x ?t = Some (x - 1)"
        using g True bu(1) by (simp_all add: s' update_body_def default_smallerf_def Let_def vars[symmetric])
      have "phase_ok f a b k (insert x V) (- 1) st en x (Some (x - 1))"
        unfolding phase_ok_def using c bu xs xr xb True by auto
      with fixed t show ?thesis unfolding search_inv_def by auto
    next
      case False
      have t: "lm_best ?t = Some (bx, Feasible (f bx))" "lm_direction ?t = 2" "lm_start ?t = st"
        "lm_stop ?t = x" "lm_next_x ?t = Some (floor_div (st + x) 2)"
        using g False bu(1) xs
        by (auto simp: s' update_body_def default_smallerf_def Let_def vars[symmetric] floor_div_def)
      from non_gt[OF False] xs bu have "k < x" by simp
      then have "phase_ok f a b k (insert x V) 2 st x bx (Some (floor_div (st + x) 2))"
        unfolding phase_ok_def using c bu xs xr xb False by auto
      with fixed t show ?thesis unfolding search_inv_def by auto
    qed
  next
    case pd
    show ?thesis
    proof (cases "f x \<le> f bx")
      case True
      let ?n = "if ceil_div (st + x) 2 = x then None else Some (ceil_div (st + x) 2)"
      have t: "lm_best ?t = Some (x, Feasible (f x))" "lm_direction ?t = - 2" "lm_start ?t = st"
        "lm_stop ?t = x" "lm_next_x ?t = ?n"
        using g True pd(1) by (simp_all add: s' update_body_def default_smallerf_def Let_def vars[symmetric])
      from imp_lt[OF True] pd have kx: "k \<le> x" by simp
      have cl: "\<bar>x - k\<bar> \<le> 1" if "ceil_div (st + x) 2 = x"
        using that kx c pd by (simp add: ceil_div_def)
      have "phase_ok f a b k (insert x V) (- 2) st x x ?n"
        unfolding phase_ok_def using c pd xb True kx cl by auto
      with fixed t show ?thesis unfolding search_inv_def by auto
    next
      case False
      have t: "lm_best ?t = Some (bx, Feasible (f bx))" "lm_direction ?t = 1" "lm_start ?t = st"
        "lm_stop ?t = en" "lm_next_x ?t = Some (bx + 1)"
        using g False pd(1,6)
        by (simp_all add: s' update_body_def default_smallerf_def Let_def vars[symmetric])
      from non_lt[OF False] pd have "bx \<le> k" by simp
      then have "phase_ok f a b k (insert x V) 1 st en bx (Some (bx + 1))"
        unfolding phase_ok_def using c pd xb False by auto
      with fixed t show ?thesis unfolding search_inv_def by auto
    qed
  next
    case pu
    show ?thesis
    proof (cases "f x \<le> f bx")
      case True
      let ?n = "if floor_div (x + en) 2 = x then None else Some (floor_div (x + en) 2)"
      have t: "lm_best ?t = Some (x, Feasible (f x))" "lm_direction ?t = 2" "lm_start ?t = x"
        "lm_stop ?t = en" "lm_next_x ?t = ?n"
        using g True pu(1) by (simp_all add: s' update_body_def default_smallerf_def Let_def vars[symmetric])
      from imp_gt[OF True] pu have kx: "x \<le> k" by simp
      from xne pu have xen: "x < en" by simp
      have "f x \<le> f en" using c True by force
      with minimiser_below[OF u, of x en] xb c xen have "k < en" by simp
      have cl: "\<bar>x - k\<bar> \<le> 1" if "floor_div (x + en) 2 = x"
        using that kx \<open>k < en\<close> by (simp add: floor_div_def)
      have "phase_ok f a b k (insert x V) 2 x en x ?n"
        unfolding phase_ok_def using c pu xb True kx cl xen
        by (auto simp: add.commute)
      with fixed t show ?thesis unfolding search_inv_def by auto
    next
      case False
      have t: "lm_best ?t = Some (bx, Feasible (f bx))" "lm_direction ?t = 1" "lm_start ?t = st"
        "lm_stop ?t = en" "lm_next_x ?t = None"
        using g False pu(1)
        by (simp_all add: s' update_body_def default_smallerf_def Let_def vars[symmetric])
      from non_gt[OF False] pu have "k \<le> bx" by simp
      with pu have "\<bar>bx - k\<bar> \<le> 1" by simp
      then have "phase_ok f a b k (insert x V) 1 st en bx None"
        unfolding phase_ok_def using c pu xb False by auto
      with fixed t show ?thesis unfolding search_inv_def by auto
    qed
  qed
qed

lemma search_loop_all_x:
  "search_loop F s = Inr (xs, t) \<Longrightarrow> lm_all_x t = lm_all_x s \<union> set xs"
proof (induction F s arbitrary: xs t rule: search_loop.induct)
  case (1 F s)
  obtain ox s' where n: "lm_next s = (ox, s')" by (cases "lm_next s")
  show ?case
  proof (cases ox)
    case None
    with n "1.prems" have "xs = []" "t = s'" by (subst (asm) search_loop.simps, simp)+
    with lm_next_None[of s s'] n None show ?thesis by simp
  next
    case (Some x)
    with n "1.prems" obtain s'' ys where
      u: "update s' (F x) = Inr s''" and r: "search_loop F s'' = Inr (ys, t)" and xs: "xs = x # ys"
      by (subst (asm) search_loop.simps) (auto split: sum.splits)
    from lm_next_Some[OF n[unfolded Some]] have s': "s' = s\<lparr>lm_last_x := Some x, lm_next_x := None\<rparr>" by simp
    with update_Inr[OF u] have "s'' = update_body s' x (F x)" by auto
    then have "lm_all_x s'' = insert x (lm_all_x s)" by (simp add: update_body_all_x s')
    with "1.IH"[OF n[symmetric] Some u r] xs show ?thesis by auto
  qed
qed

lemma search_loop_keeps_inv:
  assumes u: "strictly_unimodal f a (b + 1) k"
  shows "search_inv f a b k s \<Longrightarrow> search_loop (Feasible \<circ> f) s = Inr (xs, t)
           \<Longrightarrow> search_inv f a b k t \<and> fst (lm_next t) = None"
proof (induction "Feasible \<circ> f" s arbitrary: xs t rule: search_loop.induct)
  case (1 s)
  obtain ox s' where n: "lm_next s = (ox, s')" by (cases "lm_next s")
  show ?case
  proof (cases ox)
    case None
    with n "1.prems"(2) have "t = s'" by (subst (asm) search_loop.simps) simp
    with lm_next_None[of s s'] n None "1.prems"(1) show ?thesis by simp
  next
    case (Some x)
    with n "1.prems"(2) obtain s'' ys where
      up: "update s' ((Feasible \<circ> f) x) = Inr s''" and r: "search_loop (Feasible \<circ> f) s'' = Inr (ys, t)"
      by (subst (asm) search_loop.simps) (auto split: sum.splits)
    from lm_next_Some[OF n[unfolded Some]] have s': "s' = s\<lparr>lm_last_x := Some x, lm_next_x := None\<rparr>" by simp
    with update_Inr[OF up] have s'': "s'' = update_body s' x (Feasible (f x))" by auto
    from search_inv_step[OF u "1.prems"(1) n[unfolded Some]] s''
    have "search_inv f a b k s''" by simp
    from "1.hyps"[OF n[symmetric] Some up this r] show ?thesis .
  qed
qed

lemma search_inv_first:
  fixes ll :: int and sw :: bool
  assumes u: "strictly_unimodal f a (b + 1) k"
  defines "s0 \<equiv> init_state a (b + 1) default_smallerf ll sw 1"
  shows "lm_next s0 = (Some b, s0\<lparr>lm_last_x := Some b, lm_next_x := None\<rparr>)"
    and "search_inv f a b k (update_body (s0\<lparr>lm_last_x := Some b, lm_next_x := None\<rparr>) b (Feasible (f b)))"
proof -
  from u have k: "a \<le> k" "k \<le> b" by (simp_all add: strictly_unimodal_def)
  then show "lm_next s0 = (Some b, s0\<lparr>lm_last_x := Some b, lm_next_x := None\<rparr>)"
    by (simp add: s0_def init_state_def lm_next_def)
  let ?t = "update_body (s0\<lparr>lm_last_x := Some b, lm_next_x := None\<rparr>) b (Feasible (f b))"
  let ?n = "if ceil_div (a + b) 2 = b then None else Some (ceil_div (a + b) 2)"
  have t: "lm_initial_bounds ?t = (a, b)" "lm_test_step_size ?t = 1" "lm_smallerf ?t = default_smallerf"
    "lm_all_x ?t = {b}" "lm_best ?t = Some (b, Feasible (f b))" "lm_direction ?t = - 2"
    "lm_start ?t = a" "lm_stop ?t = b" "lm_next_x ?t = ?n"
    by (simp_all add: s0_def init_state_def update_body_def default_smallerf_def Let_def)
  have cl: "\<bar>b - k\<bar> \<le> 1" if "ceil_div (a + b) 2 = b"
    using that k by (simp add: ceil_div_def)
  have "phase_ok f a b k {b} (- 2) a b b ?n"
    unfolding phase_ok_def using k cl by auto
  with t show "search_inv f a b k ?t" unfolding search_inv_def by auto
qed

text \<open>
  How far the best candidate can be from the minimiser. For a strictly unimodal
  integer-valued cost function \<open>f\<close> on \<open>[start, stop)\<close> with minimiser \<open>k\<close>, the loop with
  the default comparator and step size \<open>1\<close> returns; its best candidate \<open>x\<close> was evaluated,
  lies in \<open>[start, stop)\<close>, carries the result \<open>f(x)\<close>, which is the least result among the
  evaluated candidates, and is at distance at most one from \<open>k\<close>. The example shows that
  the distance one occurs away from the bounds: on \<open>[0, 9)\<close> with the minimiser \<open>7\<close> the
  best candidate is \<open>6\<close>.
\<close>

lemma unimodal_search_within_one:
  assumes "strictly_unimodal f start stop k"
  shows "\<exists>xs t x.
           local_minimum start stop default_smallerf ll sw 1
             = Inr (init_state start stop default_smallerf ll sw 1)
         \<and> search_loop (Feasible \<circ> f) (init_state start stop default_smallerf ll sw 1) = Inr (xs, t)
         \<and> lm_best t = Some (x, Feasible (f x))
         \<and> x \<in> set xs \<and> set xs \<subseteq> {start ..< stop} \<and> (\<forall>y\<in>set xs. f x \<le> f y)
         \<and> \<bar>x - k\<bar> \<le> 1"
proof -
  define b where "b = stop - 1"
  then have stop: "stop = b + 1" by simp
  from assms have u: "strictly_unimodal f start (b + 1) k" by (simp add: stop)
  then have le: "start \<le> b" by (simp add: strictly_unimodal_def)
  let ?F = "Feasible \<circ> f"
  let ?s0 = "init_state start (b + 1) default_smallerf ll sw 1"
  let ?s1 = "?s0\<lparr>lm_last_x := Some b, lm_next_x := None\<rparr>"
  let ?s2 = "update_body ?s1 b (Feasible (f b))"
  note first = search_inv_first[OF u, of ll sw]
  obtain ys t where r: "search_loop ?F ?s2 = Inr (ys, t)" using search_loop_Inr by blast
  have u1: "update ?s1 (?F b) = Inr ?s2" by (simp add: update_def)
  from first(1) u1 r have run: "search_loop ?F ?s0 = Inr (b # ys, t)"
    by (subst search_loop.simps) simp
  from search_loop_keeps_inv[OF u first(2) r] have inv: "search_inv f start b k t"
    and stopd: "fst (lm_next t) = None" by simp_all
  from inv obtain x where best: "lm_best t = Some (x, Feasible (f x))"
    and p: "phase_ok f start b k (lm_all_x t) (lm_direction t) (lm_start t) (lm_stop t) x (lm_next_x t)"
    and bnd: "lm_initial_bounds t = (start, b)"
    unfolding search_inv_def by blast
  from search_loop_all_x[OF run] have V: "lm_all_x t = set (b # ys)" by (simp add: init_state_def)
  from stopd bnd have ab: "lm_next_x t = None \<or> (\<exists>n. lm_next_x t = Some n \<and> (n \<in> lm_all_x t \<or> n < start \<or> b < n))"
    by (auto simp: lm_next_def Let_def split: option.splits if_splits)
  from phase_ok_abort[OF u p ab] have close: "\<bar>x - k\<bar> \<le> 1" .
  from p V have "x \<in> set (b # ys)" "\<forall>y\<in>set (b # ys). f x \<le> f y \<and> start \<le> y \<and> y \<le> b"
    by (simp_all add: phase_ok_def)
  then have "x \<in> set (b # ys)" "set (b # ys) \<subseteq> {start ..< stop}" "\<forall>y\<in>set (b # ys). f x \<le> f y"
    by (auto simp: stop)
  moreover have "local_minimum start stop default_smallerf ll sw 1 = Inr (init_state start stop default_smallerf ll sw 1)"
    using le by (simp add: local_minimum_def stop)
  ultimately show ?thesis using run best close unfolding stop by blast
qed

lemma unimodal_search_within_one_example:
  "strictly_unimodal (\<lambda>x. \<bar>x - 7\<bar> + 2 * max 0 (x - 7)) 0 9 7
   \<and> (\<exists>xs t x.
         search_loop (Feasible \<circ> (\<lambda>x. \<bar>x - 7\<bar> + 2 * max 0 (x - 7))) (init_state 0 9 default_smallerf 5 False 1) = Inr (xs, t)
       \<and> lm_best t = Some (x, Feasible (\<bar>x - 7\<bar> + 2 * max 0 (x - 7))) \<and> x \<in> set xs \<and> \<bar>x - 7\<bar> \<le> 1)
   \<and> map_sum id (lm_best \<circ> snd)
        (search_loop (Feasible \<circ> (\<lambda>x. \<bar>x - 7\<bar> + 2 * max 0 (x - 7))) (init_state 0 9 default_smallerf 5 False 1))
       = Inr (Some (6, Feasible 1))"
proof -
  have h: "strictly_unimodal (\<lambda>x. \<bar>x - 7\<bar> + 2 * max 0 (x - 7)) 0 9 7"
    by (auto simp: strictly_unimodal_def)
  have e: "map_sum id (lm_best \<circ> snd)
        (search_loop (Feasible \<circ> (\<lambda>x. \<bar>x - 7\<bar> + 2 * max 0 (x - 7))) (init_state 0 9 default_smallerf 5 False 1))
       = Inr (Some (6, Feasible 1))"
    by (simp add: search_loop.simps lm_defs)
  from unimodal_search_within_one[OF h, of 5 False] h e show ?thesis by blast
qed

text \<open>
  C1: on a strictly unimodal integer-valued cost function the best candidate at the end
  of the search is to attain the minimum over \<open>[start, stop)\<close>. The code misses it. On
  \<open>[0, 2)\<close> with the cost \<open>f(x) = x\<close>, whose minimum is at \<open>0\<close>, the only candidate evaluated
  is \<open>1\<close>: the midpoint \<open>ceil((0 + 1) / 2)\<close> is \<open>1\<close> again and the search stops. On
  \<open>[10, 31)\<close> with the cost \<open>f(x) = x * x\<close>, whose minimum \<open>100\<close> is at \<open>10\<close>, the candidates
  are \<open>30, 20, 19, 15, 14, 12, 11\<close> and the best result is \<open>121\<close>; the original start \<open>10\<close>
  is never evaluated.
\<close>

theorem unimodal_minimum_missed:
  "strictly_unimodal id 0 2 0
   \<and> map_sum id (lm_best \<circ> snd) (search_loop (Feasible \<circ> id) (init_state 0 2 default_smallerf 5 False 1))
       = Inr (Some (1, Feasible 1))
   \<and> map_sum id fst (search_loop (Feasible \<circ> id) (init_state 0 2 default_smallerf 5 False 1))
       = Inr [1]
   \<and> (0::int) \<in> {0 ..< 2} \<and> id (0::int) < id 1
   \<and> strictly_unimodal (\<lambda>x. x * x) 10 31 10
   \<and> map_sum id (lm_best \<circ> snd)
        (search_loop (Feasible \<circ> (\<lambda>x. x * x)) (init_state 10 31 default_smallerf 5 False 1))
       = Inr (Some (11, Feasible 121))
   \<and> map_sum id fst
        (search_loop (Feasible \<circ> (\<lambda>x. x * x)) (init_state 10 31 default_smallerf 5 False 1))
       = Inr [30, 20, 19, 15, 14, 12, 11]
   \<and> (10::int) \<in> {10 ..< 31} \<and> (10::int) * 10 < 121"
proof -
  have u1: "strictly_unimodal id 0 2 0" by (simp add: strictly_unimodal_def)
  have u2: "strictly_unimodal (\<lambda>x. x * x) 10 31 10"
    by (auto simp: strictly_unimodal_def algebra_simps)
  have b1: "map_sum id (lm_best \<circ> snd) (search_loop (Feasible \<circ> id) (init_state 0 2 default_smallerf 5 False 1))
       = Inr (Some (1, Feasible 1))"
    by (simp add: search_loop.simps lm_defs)
  have x1: "map_sum id fst (search_loop (Feasible \<circ> id) (init_state 0 2 default_smallerf 5 False 1)) = Inr [1]"
    by (simp add: search_loop.simps lm_defs)
  have b2: "map_sum id (lm_best \<circ> snd)
        (search_loop (Feasible \<circ> (\<lambda>x. x * x)) (init_state 10 31 default_smallerf 5 False 1))
       = Inr (Some (11, Feasible 121))"
    by (simp add: search_loop.simps lm_defs)
  have x2: "map_sum id fst
        (search_loop (Feasible \<circ> (\<lambda>x. x * x)) (init_state 10 31 default_smallerf 5 False 1))
       = Inr [30, 20, 19, 15, 14, 12, 11]"
    by (simp add: search_loop.simps lm_defs)
  from u1 u2 b1 x1 b2 x2 show ?thesis by simp
qed

theorem unimodal_minimum_missed_witness:
  "strictly_unimodal id 0 2 0
   \<and> map_sum id fst (search_loop (Feasible \<circ> id) (init_state 0 2 default_smallerf 5 False 1))
       = Inr [1]
   \<and> strictly_unimodal (\<lambda>x. x * x) 10 31 10
   \<and> map_sum id fst
        (search_loop (Feasible \<circ> (\<lambda>x. x * x)) (init_state 10 31 default_smallerf 5 False 1))
       = Inr [30, 20, 19, 15, 14, 12, 11]"
  using unimodal_minimum_missed by blast

end
